theory Spec2Isabelle
  imports Complex_Main
begin

section \<open>Python values and exceptions\<close>

text \<open>
  The exceptions the modelled code can meet. All of them are subclasses of Python's
  \<open>Exception\<close>, so an \<open>except Exception\<close> clause catches each one.
  \<open>DriverError\<close> stands for anything a Playwright call raises (timeout, detached
  frame, closed page).
\<close>

datatype exn = DriverError | ValueError | TypeError | AttributeError

text \<open>\<open>try: body except Exception: handler\<close> on a computation without state.\<close>

definition try_except :: "exn + 'a \<Rightarrow> (exn \<Rightarrow> exn + 'a) \<Rightarrow> exn + 'a" where
  "try_except body handler = (case body of Inl e \<Rightarrow> handler e | Inr v \<Rightarrow> Inr v)"

text \<open>Python's \<open>needle in haystack\<close> on strings.\<close>

fun substring_in :: "string \<Rightarrow> string \<Rightarrow> bool" where
  "substring_in p [] = (p = [])"
| "substring_in p (c # cs) = (take (length p) (c # cs) = p \<or> substring_in p cs)"

text \<open>
  \<open>str.upper()\<close> and \<open>str.lower()\<close> on the ASCII letters; a \<open>char\<close> is one
  byte, so the case mappings of code points beyond ASCII are outside the model.
\<close>

definition upper_char :: "char \<Rightarrow> char" where
  "upper_char c = (let n = (of_char c :: nat) in if 97 \<le> n \<and> n \<le> 122 then char_of (n - 32) else c)"

definition lower_char :: "char \<Rightarrow> char" where
  "lower_char c = (let n = (of_char c :: nat) in if 65 \<le> n \<and> n \<le> 90 then char_of (n + 32) else c)"

definition upper :: "string \<Rightarrow> string" where
  "upper s = map upper_char s"

definition lower :: "string \<Rightarrow> string" where
  "lower s = map lower_char s"

text \<open>\<open>int(x)\<close> on a finite float: truncation towards zero. Floats are idealised as rationals.\<close>

definition py_int :: "rat \<Rightarrow> int" where
  "py_int x = (if 0 \<le> x then \<lfloor>x\<rfloor> else \<lceil>x\<rceil>)"

section \<open>browser/ws\_helper.py: the page driver\<close>

text \<open>
  The page is outside the program, so what the Playwright calls answer is an input of
  the model. A \<open>snapshot\<close> holds the answer of every driver call the helpers make at
  one moment: \<open>Inl\<close> when the call raises, \<open>Inr\<close> its return value otherwise. The
  fields are independent, so a snapshot puts no constraint between the calls.
  \<open>took\<close> is the wall-clock time, in milliseconds, that the calls of this moment use.
\<close>

record bounding_box =
  box_x :: rat
  box_y :: rat
  box_width :: rat
  box_height :: rat

record button =
  btn_count :: "exn + nat"
  btn_visible :: "exn + bool"
  btn_click :: "exn + unit"

record snapshot =
  took :: nat
  frame_locator :: "exn + unit"
  status_visible :: "exn + bool"
  status_text :: "exn + string option"
  disconnect_btn :: button
  connect_btn :: button
  modal_count :: "exn + nat"
  modal_visible :: "exn + bool"
  iframe_count :: "exn + nat"
  iframe_box :: "exn + bounding_box option"
  mouse_move :: "exn + unit"
  mouse_click :: "exn + unit"

text \<open>
  The environment of one run: the snapshot each successive look at the page gets, and
  the raw draws of the random generator.
\<close>

record env =
  page_at :: "nat \<Rightarrow> snapshot"
  draw :: "nat \<Rightarrow> nat"

text \<open>
  What a run has done so far. \<open>now\<close> is \<open>time.time()\<close> in milliseconds, \<open>seen\<close>
  the number of snapshots taken, \<open>drawn\<close> the number of random draws,
  \<open>pointer\<close> the \<open>page.mouse\<close> events sent, and \<open>ops\<close> the calls that
  \<open>reconnect_ws\<close> and \<open>wait_for_ws_connected\<close> have made, oldest first.
\<close>

datatype pointer_event = Move rat rat | Click rat rat

datatype op_event =
    Dismissed bool
  | Toggled string bool
  | Slept nat
  | Sampled string

record world =
  now :: int
  seen :: nat
  drawn :: nat
  pointer :: "pointer_event list"
  ops :: "op_event list"

text \<open>Taking the next snapshot uses the time its driver calls take.\<close>

definition look :: "env \<Rightarrow> world \<Rightarrow> snapshot \<times> world" where
  "look e w = (let s = page_at e (seen w)
     in (s, w\<lparr>now := now w + int (took s), seen := Suc (seen w)\<rparr>))"

text \<open>\<open>time.sleep\<close>, in milliseconds.\<close>

definition sleep :: "nat \<Rightarrow> world \<Rightarrow> world" where
  "sleep ms w = w\<lparr>now := now w + int ms\<rparr>"

text \<open>
  \<open>random.randint(a, b)\<close>: some integer of \<open>[a, b]\<close>, any of them for a suitable
  draw; \<open>ValueError\<close> on an empty range.
\<close>

definition randint :: "env \<Rightarrow> int \<Rightarrow> int \<Rightarrow> world \<Rightarrow> (exn + int) \<times> world" where
  "randint e a b w =
     (if b < a then (Inl ValueError, w)
      else (Inr (a + int (draw e (drawn w) mod nat (b - a + 1))), w\<lparr>drawn := Suc (drawn w)\<rparr>))"

subsection \<open>get\_preview\_frame, get\_ws\_status\<close>

definition get_preview_frame :: "snapshot \<Rightarrow> unit option" where
  "get_preview_frame s = (case frame_locator s of Inl e \<Rightarrow> None | Inr f \<Rightarrow> Some f)"

text \<open>The body of the \<open>try\<close> block of \<open>get_ws_status\<close>.\<close>

definition ws_status_try :: "snapshot \<Rightarrow> exn + string" where
  "ws_status_try s =
     (case get_preview_frame s of
        None \<Rightarrow> Inr ''UNKNOWN''
      | Some frame \<Rightarrow>
          (case status_visible s of
             Inl e \<Rightarrow> Inl e
           | Inr visible \<Rightarrow>
               if visible then
                 (case status_text s of
                    Inl e \<Rightarrow> Inl e
                  | Inr None \<Rightarrow> Inr ''UNKNOWN''
                  | Inr (Some t) \<Rightarrow>
                      if t \<noteq> [] then
                        (if substring_in ''CONNECTED'' (upper t) then Inr ''CONNECTED''
                         else if substring_in ''IDLE'' (upper t) then Inr ''IDLE''
                         else if substring_in ''CONNECTING'' (upper t) then Inr ''CONNECTING''
                         else Inr ''UNKNOWN'')
                      else Inr ''UNKNOWN'')
               else Inr ''UNKNOWN''))"

definition ws_status_of :: "snapshot \<Rightarrow> exn + string" where
  "ws_status_of s = try_except (ws_status_try s) (\<lambda>e. Inr ''UNKNOWN'')"

definition get_ws_status :: "env \<Rightarrow> world \<Rightarrow> (exn + string) \<times> world" where
  "get_ws_status e w = (let (s, w1) = look e w in (ws_status_of s, w1))"

text \<open>
  \<open>try: body except Exception: return d\<close> on a computation over the world: what the
  body did before it raised stays done.
\<close>

definition catching :: "(exn + 'a) \<times> world \<Rightarrow> 'a \<Rightarrow> (exn + 'a) \<times> world" where
  "catching r d = (case r of (Inl x, w) \<Rightarrow> (Inr d, w) | (Inr v, w) \<Rightarrow> (Inr v, w))"

text \<open>Sequencing: an exception of the first computation ends the second unrun.\<close>

definition and_then ::
  "(world \<Rightarrow> (exn + 'a) \<times> world) \<Rightarrow> ('a \<Rightarrow> world \<Rightarrow> (exn + 'b) \<times> world) \<Rightarrow>
   world \<Rightarrow> (exn + 'b) \<times> world" where
  "and_then m f w = (case m w of (Inl x, w1) \<Rightarrow> (Inl x, w1) | (Inr v, w1) \<Rightarrow> f v w1)"

definition logged :: "op_event \<Rightarrow> world \<Rightarrow> world" where
  "logged ev w = w\<lparr>ops := ops w @ [ev]\<rparr>"

subsection \<open>click\_disconnect, click\_connect\<close>

text \<open>
  The two functions differ in the button they look for only; \<open>click_button_try\<close> is
  the body of their \<open>try\<close> block, on the button's answers.
\<close>

definition click_button_try :: "snapshot \<Rightarrow> button \<Rightarrow> world \<Rightarrow> (exn + bool) \<times> world" where
  "click_button_try s b w =
     (case get_preview_frame s of
        None \<Rightarrow> (Inr False, w)
      | Some frame \<Rightarrow>
          (case btn_count b of
             Inl x \<Rightarrow> (Inl x, w)
           | Inr n \<Rightarrow>
               if 0 < n then
                 (case btn_visible b of
                    Inl x \<Rightarrow> (Inl x, w)
                  | Inr visible \<Rightarrow>
                      if visible then
                        (case btn_click b of
                           Inl x \<Rightarrow> (Inl x, w)
                         | Inr u \<Rightarrow> (Inr True, sleep 1000 w))
                      else (Inr False, w))
               else (Inr False, w)))"

definition click_disconnect :: "env \<Rightarrow> world \<Rightarrow> (exn + bool) \<times> world" where
  "click_disconnect e w =
     (let (s, w1) = look e w in catching (click_button_try s (disconnect_btn s) w1) False)"

definition click_connect :: "env \<Rightarrow> world \<Rightarrow> (exn + bool) \<times> world" where
  "click_connect e w =
     (let (s, w1) = look e w in catching (click_button_try s (connect_btn s) w1) False)"

subsection \<open>dismiss\_interaction\_modal\<close>

text \<open>\<open>modal.count() == 0 or not modal.first.is_visible(timeout=...)\<close>, left to right.\<close>

definition modal_gone :: "snapshot \<Rightarrow> exn + bool" where
  "modal_gone s =
     (case modal_count s of
        Inl x \<Rightarrow> Inl x
      | Inr n \<Rightarrow>
          if n = 0 then Inr True
          else (case modal_visible s of Inl x \<Rightarrow> Inl x | Inr visible \<Rightarrow> Inr (\<not> visible)))"

text \<open>
  The \<open>for i in range(30)\<close> loop, with the number of iterations left. It answers
  \<open>Inr True\<close> when the body returns True, and \<open>Inr False\<close> when the range is
  used up and control falls to the \<open>return False\<close> after it. Every iteration looks
  at the page once: that snapshot answers \<open>page.mouse.move\<close> and the check of the modal.
\<close>

fun modal_walk ::
  "env \<Rightarrow> bounding_box \<Rightarrow> nat \<Rightarrow> rat \<Rightarrow> rat \<Rightarrow> world \<Rightarrow> (exn + bool) \<times> world" where
  "modal_walk e b 0 curr_x curr_y w = (Inr False, w)"
| "modal_walk e b (Suc n) curr_x curr_y w =
     (case randint e (- 30) 30 w of
        (Inl x, w1) \<Rightarrow> (Inl x, w1)
      | (Inr delta_x, w1) \<Rightarrow>
     (case randint e (- 20) 20 w1 of
        (Inl x, w2) \<Rightarrow> (Inl x, w2)
      | (Inr delta_y, w2) \<Rightarrow>
     (let new_x = max (box_x b + 20) (min (box_x b + box_width b - 20) (curr_x + of_int delta_x));
          new_y = max (box_y b + 20) (min (box_y b + box_height b - 20) (curr_y + of_int delta_y));
          (s, w3) = look e w2
      in case mouse_move s of
           Inl x \<Rightarrow> (Inl x, w3)
         | Inr u \<Rightarrow>
             (let w4 = sleep 50 (w3\<lparr>pointer := pointer w3 @ [Move new_x new_y]\<rparr>)
              in case modal_gone s of
                   Inl x \<Rightarrow> (Inl x, w4)
                 | Inr gone \<Rightarrow>
                     if gone then (Inr True, w4) else modal_walk e b n new_x new_y w4))))"

definition dismiss_try :: "env \<Rightarrow> world \<Rightarrow> (exn + bool) \<times> world" where
  "dismiss_try e w =
     (let (s, w1) = look e w
      in case modal_gone s of
           Inl x \<Rightarrow> (Inl x, w1)
         | Inr gone \<Rightarrow>
             if gone then (Inr False, w1)
             else
               (case iframe_count s of
                  Inl x \<Rightarrow> (Inl x, w1)
                | Inr n \<Rightarrow>
                    if 0 < n then
                      (case iframe_box s of
                         Inl x \<Rightarrow> (Inl x, w1)
                       | Inr None \<Rightarrow> (Inr False, w1)
                       | Inr (Some b) \<Rightarrow>
                           (case randint e 50 (py_int (box_width b) - 50) w1 of
                              (Inl x, w2) \<Rightarrow> (Inl x, w2)
                            | (Inr rx, w2) \<Rightarrow>
                           (case randint e 50 (py_int (box_height b) - 50) w2 of
                              (Inl x, w3) \<Rightarrow> (Inl x, w3)
                            | (Inr ry, w3) \<Rightarrow>
                                modal_walk e b 30 (box_x b + of_int rx) (box_y b + of_int ry) w3)))
                    else (Inr False, w1)))"

definition dismiss_interaction_modal :: "env \<Rightarrow> world \<Rightarrow> (exn + bool) \<times> world" where
  "dismiss_interaction_modal e w = catching (dismiss_try e w) False"

subsection \<open>wait\_for\_ws\_connected, reconnect\_ws\<close>

lemma get_ws_status_clock: "now w \<le> now (snd (get_ws_status e w))"
  by (simp add: get_ws_status_def look_def Let_def)

text \<open>
  The \<open>while time.time() - start_time < timeout\<close> loop; \<open>timeout\<close> is in seconds, as
  in the source, and the clock in milliseconds. The clock of the model never runs
  backwards, and a sleep of one second takes one second, so the loop ends.
\<close>

function wait_loop :: "env \<Rightarrow> int \<Rightarrow> int \<Rightarrow> world \<Rightarrow> (exn + bool) \<times> world" where
  "wait_loop e start_time timeout w =
     (if now w - start_time < 1000 * timeout then
        (case get_ws_status e w of
           (Inl x, w1) \<Rightarrow> (Inl x, w1)
         | (Inr status, w1) \<Rightarrow>
             if status = ''CONNECTED'' then (Inr True, logged (Sampled status) w1)
             else wait_loop e start_time timeout
                    (logged (Slept 1000) (sleep 1000 (logged (Sampled status) w1))))
      else (Inr False, w))"
  by pat_completeness auto
termination
proof (relation "measure (\<lambda>(e, start_time, timeout, w). nat (start_time + 1000 * timeout - now w))",
    goal_cases)
  case 1
  show ?case by simp
next
  case (2 e start_time timeout w x y b)
  from 2(2) have "y = snd (get_ws_status e w)"
    by (metis snd_conv)
  with get_ws_status_clock [of w e] have "now w \<le> now y"
    by simp
  with 2(1) show ?case
    by (simp add: logged_def sleep_def)
qed

declare wait_loop.simps [simp del]

definition wait_for_ws_connected :: "env \<Rightarrow> int \<Rightarrow> world \<Rightarrow> (exn + bool) \<times> world" where
  "wait_for_ws_connected e timeout w = wait_loop e (now w) timeout w"

text \<open>
  \<open>reconnect_ws\<close> has no \<open>try\<close> of its own: an exception of a helper would leave it
  at once. Both branches of its final \<open>if\<close> sample the status and return it.
\<close>

definition sample :: "env \<Rightarrow> world \<Rightarrow> (exn + string) \<times> world" where
  "sample e = and_then (get_ws_status e) (\<lambda>status w. (Inr status, logged (Sampled status) w))"

definition reconnect_ws :: "env \<Rightarrow> world \<Rightarrow> (exn + string) \<times> world" where
  "reconnect_ws e =
     and_then (dismiss_interaction_modal e) (\<lambda>dismissed.
     and_then (click_disconnect e \<circ> logged (Dismissed dismissed)) (\<lambda>clicked.
     and_then (sample e \<circ> logged (Slept 2000) \<circ> sleep 2000 \<circ> logged (Toggled ''Disconnect'' clicked))
       (\<lambda>status.
     and_then (click_connect e) (\<lambda>clicked.
     and_then (wait_for_ws_connected e 15 \<circ> logged (Slept 2000) \<circ> sleep 2000
               \<circ> logged (Toggled ''Connect'' clicked)) (\<lambda>connected.
       if connected then sample e else sample e)))))"

subsection \<open>Concrete pages and worlds for the examples\<close>

definition clickable :: button where
  "clickable = \<lparr>btn_count = Inr 1, btn_visible = Inr True, btn_click = Inr ()\<rparr>"

text \<open>
  A page without overlay whose status indicator is visible and reads \<open>t\<close>, with both
  buttons clickable and the preview in the box \<open>b\<close>.
\<close>

definition page_showing :: "string \<Rightarrow> bounding_box \<Rightarrow> snapshot" where
  "page_showing t b =
     \<lparr>took = 0, frame_locator = Inr (), status_visible = Inr True, status_text = Inr (Some t),
      disconnect_btn = clickable, connect_btn = clickable,
      modal_count = Inr 0, modal_visible = Inr False,
      iframe_count = Inr 1, iframe_box = Inr (Some b),
      mouse_move = Inr (), mouse_click = Inr ()\<rparr>"

definition wide_box :: bounding_box where
  "wide_box = \<lparr>box_x = 0, box_y = 0, box_width = 1000, box_height = 800\<rparr>"

definition steady :: "snapshot \<Rightarrow> env" where
  "steady s = \<lparr>page_at = (\<lambda>k. s), draw = (\<lambda>k. 0)\<rparr>"

definition fresh :: world where
  "fresh = \<lparr>now = 0, seen = 0, drawn = 0, pointer = [], ops = []\<rparr>"

text \<open>A preview whose left edge lies half a pixel off the grid.\<close>

definition half_pixel_box :: bounding_box where
  "half_pixel_box = \<lparr>box_x = 1 / 2, box_y = 0, box_width = 1000, box_height = 800\<rparr>"

text \<open>An overlay that stays for the first three looks at the page, and is gone afterwards.\<close>

definition overlay_page :: snapshot where
  "overlay_page = (page_showing ''WS: IDLE'' wide_box)\<lparr>modal_count := Inr 1, modal_visible := Inr True\<rparr>"

definition lifting_overlay :: env where
  "lifting_overlay =
     \<lparr>page_at = (\<lambda>k. if k < 3 then overlay_page else page_showing ''WS: IDLE'' wide_box),
      draw = (\<lambda>k. 7 * k)\<rparr>"

subsection \<open>What a run of dismiss\_interaction\_modal meets\<close>

text \<open>
  \<open>walk_starts s\<close>: on the first look the overlay is there and visible, the preview
  iframe exists, its box can be measured, and both \<open>random.randint(50, int(side) - 50)\<close>
  have a non-empty range, so the pointer walk begins.
\<close>

definition walk_starts :: "snapshot \<Rightarrow> bool" where
  "walk_starts s =
     (modal_gone s = Inr False \<and>
      (case iframe_count s of Inl x \<Rightarrow> False | Inr n \<Rightarrow> 0 < n) \<and>
      (case iframe_box s of
         Inr (Some b) \<Rightarrow> 100 \<le> py_int (box_width b) \<and> 100 \<le> py_int (box_height b)
       | _ \<Rightarrow> False))"

text \<open>
  \<open>first_gone e k i\<close>: with the steps of the walk looking at the snapshots \<open>k\<close>,
  \<open>k + 1\<close>, ..., step \<open>i\<close> is the first one at which the overlay is observed
  absent or not visible; every step before it saw the overlay, and the pointer moved at
  every step up to it.
\<close>

definition first_gone :: "env \<Rightarrow> nat \<Rightarrow> nat \<Rightarrow> bool" where
  "first_gone e k i =
     (modal_gone (page_at e (k + i)) = Inr True \<and>
      (\<forall>j<i. modal_gone (page_at e (k + j)) = Inr False) \<and>
      (\<forall>j\<le>i. mouse_move (page_at e (k + j)) = Inr ()))"

subsection \<open>click\_in\_iframe\<close>

text \<open>
  The \<open>for _ in range(random.randint(3, 6))\<close> loop, with the number of iterations
  left and the integer bounds \<open>int(safe_left)\<close>, \<open>int(safe_right)\<close>,
  \<open>int(safe_top)\<close>, \<open>int(safe_bottom)\<close>; it answers the last position.
\<close>

fun idle_walk ::
  "env \<Rightarrow> int \<Rightarrow> int \<Rightarrow> int \<Rightarrow> int \<Rightarrow> nat \<Rightarrow> int \<Rightarrow> int \<Rightarrow> world \<Rightarrow> (exn + int \<times> int) \<times> world" where
  "idle_walk e lo_x hi_x lo_y hi_y 0 curr_x curr_y w = (Inr (curr_x, curr_y), w)"
| "idle_walk e lo_x hi_x lo_y hi_y (Suc n) curr_x curr_y w =
     (case randint e (- 30) 30 w of
        (Inl x, w1) \<Rightarrow> (Inl x, w1)
      | (Inr delta_x, w1) \<Rightarrow>
     (case randint e (- 20) 20 w1 of
        (Inl x, w2) \<Rightarrow> (Inl x, w2)
      | (Inr delta_y, w2) \<Rightarrow>
     (let new_x = max lo_x (min hi_x (curr_x + delta_x));
          new_y = max lo_y (min hi_y (curr_y + delta_y));
          (s, w3) = look e w2
      in case mouse_move s of
           Inl x \<Rightarrow> (Inl x, w3)
         | Inr u \<Rightarrow>
             idle_walk e lo_x hi_x lo_y hi_y n new_x new_y
               (sleep 50 (w3\<lparr>pointer := pointer w3 @ [Move (of_int new_x) (of_int new_y)]\<rparr>)))))"

definition safe_left :: "bounding_box \<Rightarrow> rat" where
  "safe_left b = box_x b + 50"

definition safe_right :: "bounding_box \<Rightarrow> rat" where
  "safe_right b = box_x b + box_width b - 200"

definition safe_top :: "bounding_box \<Rightarrow> rat" where
  "safe_top b = box_y b + 80"

definition safe_bottom :: "bounding_box \<Rightarrow> rat" where
  "safe_bottom b = box_y b + box_height b - 50"

definition click_in_iframe_try :: "env \<Rightarrow> world \<Rightarrow> (exn + bool) \<times> world" where
  "click_in_iframe_try e w =
     (let (s, w1) = look e w
      in case iframe_count s of
           Inl x \<Rightarrow> (Inl x, w1)
         | Inr n \<Rightarrow>
             if n = 0 then (Inr False, w1)
             else
               (case iframe_box s of
                  Inl x \<Rightarrow> (Inl x, w1)
                | Inr None \<Rightarrow> (Inr False, w1)
                | Inr (Some b) \<Rightarrow>
                    if safe_right b \<le> safe_left b \<or> safe_bottom b \<le> safe_top b then (Inr False, w1)
                    else
                      (case randint e (py_int (safe_left b)) (py_int (safe_right b)) w1 of
                         (Inl x, w2) \<Rightarrow> (Inl x, w2)
                       | (Inr curr_x, w2) \<Rightarrow>
                      (case randint e (py_int (safe_top b)) (py_int (safe_bottom b)) w2 of
                         (Inl x, w3) \<Rightarrow> (Inl x, w3)
                       | (Inr curr_y, w3) \<Rightarrow>
                      (case randint e 3 6 w3 of
                         (Inl x, w4) \<Rightarrow> (Inl x, w4)
                       | (Inr steps, w4) \<Rightarrow>
                      (case idle_walk e (py_int (safe_left b)) (py_int (safe_right b))
                              (py_int (safe_top b)) (py_int (safe_bottom b)) (nat steps)
                              curr_x curr_y w4 of
                         (Inl x, w5) \<Rightarrow> (Inl x, w5)
                       | (Inr (last_x, last_y), w5) \<Rightarrow>
                           (let (s2, w6) = look e w5
                            in case mouse_click s2 of
                                 Inl x \<Rightarrow> (Inl x, w6)
                               | Inr u \<Rightarrow>
                                   (Inr True,
                                    w6\<lparr>pointer := pointer w6 @
                                          [Click (of_int last_x) (of_int last_y)]\<rparr>))))))))"

definition click_in_iframe :: "env \<Rightarrow> world \<Rightarrow> (exn + bool) \<times> world" where
  "click_in_iframe e w = catching (click_in_iframe_try e w) False"

text \<open>The safe region as the source computes it, before any conversion to integers.\<close>

fun in_safe_region :: "bounding_box \<Rightarrow> pointer_event \<Rightarrow> bool" where
  "in_safe_region b (Move x y) =
     (safe_left b \<le> x \<and> x \<le> safe_right b \<and> safe_top b \<le> y \<and> y \<le> safe_bottom b)"
| "in_safe_region b (Click x y) =
     (safe_left b \<le> x \<and> x \<le> safe_right b \<and> safe_top b \<le> y \<and> y \<le> safe_bottom b)"

subsection \<open>Reading the log of reconnect\_ws\<close>

text \<open>
  What the polling loop logs: a sample that is not \<open>CONNECTED\<close> and a sleep of one
  second for every status of \<open>sts\<close>, then, when the loop ends by seeing
  \<open>CONNECTED\<close>, that last sample.
\<close>

definition polling :: "string list \<Rightarrow> bool \<Rightarrow> op_event list" where
  "polling sts ok =
     concat (map (\<lambda>st. [Sampled st, Slept 1000]) sts) @ (if ok then [Sampled ''CONNECTED''] else [])"



section \<open>Properties of get\_ws\_status\<close>

lemma ws_status_of_returns: "\<exists>st. ws_status_of s = Inr st"
  by (cases "ws_status_try s") (simp_all add: ws_status_of_def try_except_def)

lemma ws_status_of_range:
  "ws_status_of s = Inr st \<Longrightarrow> st \<in> {''CONNECTED'', ''IDLE'', ''CONNECTING'', ''UNKNOWN''}"
  by (auto simp: ws_status_of_def try_except_def ws_status_try_def
      split: sum.splits option.splits if_splits)

text \<open>
  C8. \<open>get_ws_status\<close> never raises: for every page it returns one of
  \<open>CONNECTED\<close>, \<open>IDLE\<close>, \<open>CONNECTING\<close>, \<open>UNKNOWN\<close>, and it returns
  \<open>UNKNOWN\<close> whenever the preview frame cannot be located, the status indicator
  is absent or not visible, its text is missing or holds none of the three tokens, or a
  driver call raises.
\<close>

theorem get_ws_status_never_throws:
  "\<exists>st. fst (get_ws_status e w) = Inr st \<and>
     st \<in> {''CONNECTED'', ''IDLE'', ''CONNECTING'', ''UNKNOWN''} \<and>
     (((\<exists>x. frame_locator (page_at e (seen w)) = Inl x) \<or>
       (\<exists>x. status_visible (page_at e (seen w)) = Inl x) \<or>
       status_visible (page_at e (seen w)) = Inr False \<or>
       (\<exists>x. status_text (page_at e (seen w)) = Inl x) \<or>
       status_text (page_at e (seen w)) = Inr None \<or>
       (\<exists>t. status_text (page_at e (seen w)) = Inr (Some t) \<and>
            \<not> substring_in ''CONNECTED'' (upper t) \<and>
            \<not> substring_in ''IDLE'' (upper t) \<and>
            \<not> substring_in ''CONNECTING'' (upper t)))
      \<longrightarrow> st = ''UNKNOWN'')"
proof -
  define s where "s = page_at e (seen w)"
  obtain st where st: "ws_status_of s = Inr st"
    using ws_status_of_returns by blast
  have res: "fst (get_ws_status e w) = Inr st"
    using st by (simp add: get_ws_status_def look_def Let_def s_def)
  have rng: "st \<in> {''CONNECTED'', ''IDLE'', ''CONNECTING'', ''UNKNOWN''}"
    using st by (rule ws_status_of_range)
  have unk: "st = ''UNKNOWN''"
    if "(\<exists>x. frame_locator s = Inl x) \<or> (\<exists>x. status_visible s = Inl x) \<or>
        status_visible s = Inr False \<or> (\<exists>x. status_text s = Inl x) \<or>
        status_text s = Inr None \<or>
        (\<exists>t. status_text s = Inr (Some t) \<and> \<not> substring_in ''CONNECTED'' (upper t) \<and>
             \<not> substring_in ''IDLE'' (upper t) \<and> \<not> substring_in ''CONNECTING'' (upper t))"
    using that st
    by (auto simp: ws_status_of_def try_except_def ws_status_try_def get_preview_frame_def
        split: sum.splits option.splits if_splits)
  from res rng unk show ?thesis
    unfolding s_def by blast
qed

theorem get_ws_status_never_throws_witness:
  "fst (get_ws_status (steady ((page_showing ''WS: CONNECTED'' wide_box)\<lparr>status_visible := Inl DriverError\<rparr>)) fresh)
     = Inr ''UNKNOWN''"
proof -
  let ?e = "steady ((page_showing ''WS: CONNECTED'' wide_box)\<lparr>status_visible := Inl DriverError\<rparr>)"
  have raises: "status_visible (page_at ?e (seen fresh)) = Inl DriverError"
    by (simp add: steady_def)
  obtain st where "fst (get_ws_status ?e fresh) = Inr st"
    and "(\<exists>x. status_visible (page_at ?e (seen fresh)) = Inl x) \<longrightarrow> st = ''UNKNOWN''"
    using get_ws_status_never_throws [of ?e fresh] by blast
  with raises show ?thesis
    by simp
qed

section \<open>Properties of dismiss\_interaction\_modal\<close>

lemma first_gone_0:
  "first_gone e k 0 \<longleftrightarrow> modal_gone (page_at e k) = Inr True \<and> mouse_move (page_at e k) = Inr ()"
  by (auto simp: first_gone_def)

lemma first_gone_Suc:
  "first_gone e k (Suc i) \<longleftrightarrow>
     modal_gone (page_at e k) = Inr False \<and> mouse_move (page_at e k) = Inr () \<and>
     first_gone e (Suc k) i"
  apply (simp add: first_gone_def)
  apply (rule iffI)
   apply (intro conjI)
       apply (metis zero_less_Suc add.right_neutral)
      apply (metis le0 add.right_neutral)
     apply blast
    apply (metis Suc_less_eq add_Suc_right)
   apply (metis Suc_le_mono add_Suc_right)
  apply (intro conjI allI impI)
    apply simp
  subgoal for j by (cases j) auto
  subgoal for j by (cases j) auto
  done

lemma first_gone_unique: "first_gone e k i \<Longrightarrow> first_gone e k i' \<Longrightarrow> i = i'"
  unfolding first_gone_def
  by (metis Inr_inject linorder_neqE_nat)

lemma randint_ok:
  "a \<le> b \<Longrightarrow> \<exists>r. randint e a b w = (Inr r, w\<lparr>drawn := Suc (drawn w)\<rparr>) \<and> a \<le> r \<and> r \<le> b"
  apply (simp add: randint_def)
  apply (subgoal_tac "int (draw e (drawn w) mod nat (b - a + 1)) < b - a + 1")
   apply linarith
  apply (subgoal_tac "draw e (drawn w) mod nat (b - a + 1) < nat (b - a + 1)")
   apply linarith
  apply (rule mod_less_divisor)
  apply simp
  done

lemma modal_walk_spec:
  "\<exists>b moves.
     fst (modal_walk e bx n cx cy w) = b \<and>
     pointer (snd (modal_walk e bx n cx cy w)) = pointer w @ moves \<and>
     length moves \<le> n \<and>
     seen (snd (modal_walk e bx n cx cy w)) \<le> seen w + n \<and>
     ops (snd (modal_walk e bx n cx cy w)) = ops w \<and>
     (b = Inr True \<longleftrightarrow> (\<exists>i<n. first_gone e (seen w) i)) \<and>
     (\<forall>i<n. first_gone e (seen w) i \<longrightarrow> length moves = Suc i)"
proof (induction n arbitrary: cx cy w)
  case 0
  show ?case by simp
next
  case (Suc n)
  obtain dx where dx: "randint e (- 30) 30 w = (Inr dx, w\<lparr>drawn := Suc (drawn w)\<rparr>)"
    using randint_ok [of "- 30" 30 e w] by auto
  define w1 where "w1 = w\<lparr>drawn := Suc (drawn w)\<rparr>"
  obtain dy where dy: "randint e (- 20) 20 w1 = (Inr dy, w1\<lparr>drawn := Suc (drawn w1)\<rparr>)"
    using randint_ok [of "- 20" 20 e w1] by auto
  define w2 where "w2 = w1\<lparr>drawn := Suc (drawn w1)\<rparr>"
  define s where "s = page_at e (seen w)"
  define nx where "nx = max (box_x bx + 20) (min (box_x bx + box_width bx - 20) (cx + of_int dx))"
  define ny where "ny = max (box_y bx + 20) (min (box_y bx + box_height bx - 20) (cy + of_int dy))"
  define w3 where "w3 = w2\<lparr>now := now w2 + int (took s), seen := Suc (seen w2)\<rparr>"
  define w4 where "w4 = sleep 50 (w3\<lparr>pointer := pointer w3 @ [Move nx ny]\<rparr>)"
  have lk: "look e w2 = (s, w3)"
    by (simp add: look_def Let_def s_def w3_def w2_def w1_def)
  have unfold: "modal_walk e bx (Suc n) cx cy w =
      (case mouse_move s of Inl x \<Rightarrow> (Inl x, w3)
       | Inr u \<Rightarrow> (case modal_gone s of Inl x \<Rightarrow> (Inl x, w4)
           | Inr gone \<Rightarrow> if gone then (Inr True, w4) else modal_walk e bx n nx ny w4))"
    by (simp add: dx dy lk Let_def w1_def [symmetric] w2_def [symmetric] nx_def ny_def w4_def
        split: sum.splits)
  have w3: "pointer w3 = pointer w" "seen w3 = Suc (seen w)" "ops w3 = ops w"
    by (simp_all add: w3_def w2_def w1_def)
  have w4: "pointer w4 = pointer w @ [Move nx ny]" "seen w4 = Suc (seen w)" "ops w4 = ops w"
    by (simp_all add: w4_def sleep_def w3)
  show ?case
  proof (cases "mouse_move s")
    case (Inl x)
    then have none: "\<not> first_gone e (seen w) i" for i
      by (cases i) (simp_all add: first_gone_0 first_gone_Suc s_def)
    show ?thesis
      using Inl none by (simp add: unfold w3 del: modal_walk.simps)
  next
    case mv: (Inr u)
    show ?thesis
    proof (cases "modal_gone s")
      case (Inl x)
      then have none: "\<not> first_gone e (seen w) i" for i
        by (cases i) (simp_all add: first_gone_0 first_gone_Suc s_def)
      show ?thesis
        using Inl mv none by (simp add: unfold w4 del: modal_walk.simps)
    next
      case (Inr gone)
      show ?thesis
      proof (cases gone)
        case True
        have hit: "first_gone e (seen w) 0"
          using Inr True mv by (simp add: first_gone_0 s_def)
        have only: "i = 0" if "first_gone e (seen w) i" for i
          using that hit first_gone_unique by blast
        have r: "modal_walk e bx (Suc n) cx cy w = (Inr True, w4)"
          using Inr True mv by (simp add: unfold del: modal_walk.simps)
        show ?thesis
          unfolding r using hit only by (auto simp: w4)
      next
        case False
        have step: "first_gone e (seen w) i \<longleftrightarrow> (\<exists>i'. i = Suc i' \<and> first_gone e (seen w4) i')" for i
          using Inr False mv by (cases i) (simp_all add: first_gone_0 first_gone_Suc s_def w4)
        have r: "modal_walk e bx (Suc n) cx cy w = modal_walk e bx n nx ny w4"
          using Inr False mv by (simp add: unfold del: modal_walk.simps)
        obtain b moves where ih:
          "fst (modal_walk e bx n nx ny w4) = b"
          "pointer (snd (modal_walk e bx n nx ny w4)) = pointer w4 @ moves"
          "length moves \<le> n"
          "seen (snd (modal_walk e bx n nx ny w4)) \<le> seen w4 + n"
          "ops (snd (modal_walk e bx n nx ny w4)) = ops w4"
          "b = Inr True \<longleftrightarrow> (\<exists>i<n. first_gone e (seen w4) i)"
          "\<forall>i<n. first_gone e (seen w4) i \<longrightarrow> length moves = Suc i"
          using Suc.IH [of nx ny w4] by blast
        have iff: "(\<exists>i<Suc n. first_gone e (seen w) i) \<longleftrightarrow> (\<exists>i<n. first_gone e (seen w4) i)"
          using step by auto
        have len: "\<forall>i<Suc n. first_gone e (seen w) i \<longrightarrow> length (Move nx ny # moves) = Suc i"
          using step ih(7) by auto
        show ?thesis
          unfolding r
          apply (rule exI [of _ b])
          apply (rule exI [of _ "Move nx ny # moves"])
          using ih iff len by (simp add: w4)
      qed
    qed
  qed
qed


lemma dismiss_try_no_walk:
  assumes "\<not> walk_starts (page_at e (seen w))"
  shows "fst (dismiss_try e w) \<noteq> Inr True \<and>
         pointer (snd (dismiss_try e w)) = pointer w \<and>
         seen (snd (dismiss_try e w)) = Suc (seen w) \<and>
         ops (snd (dismiss_try e w)) = ops w"
  using assms
  by (auto simp: dismiss_try_def walk_starts_def look_def Let_def randint_def
      split: sum.splits option.splits if_splits)

lemma dismiss_try_walk:
  assumes "walk_starts (page_at e (seen w))"
  shows "\<exists>bx cx cy w3. dismiss_try e w = modal_walk e bx 30 cx cy w3 \<and>
           pointer w3 = pointer w \<and> seen w3 = Suc (seen w) \<and> ops w3 = ops w"
proof -
  define s where "s = page_at e (seen w)"
  define w1 where "w1 = w\<lparr>now := now w + int (took s), seen := Suc (seen w)\<rparr>"
  have lk: "look e w = (s, w1)"
    by (simp add: look_def Let_def s_def w1_def)
  from assms obtain n bx where s: "modal_gone s = Inr False" "iframe_count s = Inr n" "0 < n"
    "iframe_box s = Inr (Some bx)" "100 \<le> py_int (box_width bx)" "100 \<le> py_int (box_height bx)"
    by (auto simp: walk_starts_def s_def split: sum.splits option.splits)
  obtain rx where rx: "randint e 50 (py_int (box_width bx) - 50) w1 = (Inr rx, w1\<lparr>drawn := Suc (drawn w1)\<rparr>)"
    using randint_ok [of 50 "py_int (box_width bx) - 50" e w1] s(5) by auto
  define w2 where "w2 = w1\<lparr>drawn := Suc (drawn w1)\<rparr>"
  obtain ry where ry: "randint e 50 (py_int (box_height bx) - 50) w2 = (Inr ry, w2\<lparr>drawn := Suc (drawn w2)\<rparr>)"
    using randint_ok [of 50 "py_int (box_height bx) - 50" e w2] s(6) by auto
  define w3 where "w3 = w2\<lparr>drawn := Suc (drawn w2)\<rparr>"
  have "dismiss_try e w = modal_walk e bx 30 (box_x bx + of_int rx) (box_y bx + of_int ry) w3"
    using s(1-4) rx ry
    by (simp add: dismiss_try_def lk w2_def [symmetric] w3_def [symmetric])
  moreover have "pointer w3 = pointer w" "seen w3 = Suc (seen w)" "ops w3 = ops w"
    by (simp_all add: w3_def w2_def w1_def)
  ultimately show ?thesis
    by blast
qed

lemma catching_fst: "fst (catching r d) = Inr (case fst r of Inl x \<Rightarrow> d | Inr v \<Rightarrow> v)"
  by (simp add: catching_def split: prod.splits sum.splits)

lemma catching_snd: "snd (catching r d) = snd r"
  by (simp add: catching_def split: prod.splits sum.splits)

text \<open>
  C3. \<open>dismiss_interaction_modal\<close> never raises. It moves the pointer at most 30
  times and looks at the page at most 31 times (once before the walk, once per step).
  It returns True exactly when the walk starts and some step among the 30 is the first
  to observe the overlay absent or not visible, and it returns at that step. If the
  overlay is seen at all 30 steps, or the box of the iframe cannot be measured, it
  returns False.
\<close>

theorem dismiss_interaction_modal_steps:
  "\<exists>b moves.
     fst (dismiss_interaction_modal e w) = Inr b \<and>
     pointer (snd (dismiss_interaction_modal e w)) = pointer w @ moves \<and>
     length moves \<le> 30 \<and>
     seen (snd (dismiss_interaction_modal e w)) \<le> seen w + 31 \<and>
     (b \<longleftrightarrow> walk_starts (page_at e (seen w)) \<and> (\<exists>i<30. first_gone e (Suc (seen w)) i)) \<and>
     (\<forall>i<30. walk_starts (page_at e (seen w)) \<and> first_gone e (Suc (seen w)) i \<longrightarrow>
        length moves = Suc i) \<and>
     ((\<forall>i<30. modal_gone (page_at e (Suc (seen w) + i)) = Inr False) \<longrightarrow> \<not> b) \<and>
     ((\<forall>bx. iframe_box (page_at e (seen w)) \<noteq> Inr (Some bx)) \<longrightarrow> \<not> b)"
proof -
  let ?b = "fst (dismiss_try e w) = Inr True"
  have fst: "fst (dismiss_interaction_modal e w) = Inr ?b"
    by (simp add: dismiss_interaction_modal_def catching_fst split: sum.splits)
  have snd: "snd (dismiss_interaction_modal e w) = snd (dismiss_try e w)"
    by (simp add: dismiss_interaction_modal_def catching_snd)
  have nogone: "\<not> (\<exists>i<30. first_gone e (Suc (seen w)) i)"
    if "\<forall>i<30. modal_gone (page_at e (Suc (seen w) + i)) = Inr False"
    using that by (auto simp: first_gone_def)
  have nobox: "\<not> walk_starts (page_at e (seen w))"
    if "\<forall>bx. iframe_box (page_at e (seen w)) \<noteq> Inr (Some bx)"
    using that by (auto simp: walk_starts_def split: sum.splits option.splits)
  show ?thesis
  proof (cases "walk_starts (page_at e (seen w))")
    case False
    from dismiss_try_no_walk [OF False] have
      "\<not> ?b" "pointer (snd (dismiss_try e w)) = pointer w @ []"
      "seen (snd (dismiss_try e w)) \<le> seen w + 31"
      by simp_all
    with False fst snd show ?thesis
      by (intro exI [of _ ?b] exI [of _ "[]"]) simp
  next
    case True
    from dismiss_try_walk [OF True] obtain bx cx cy w3 where
      d: "dismiss_try e w = modal_walk e bx 30 cx cy w3"
      and w3: "pointer w3 = pointer w" "seen w3 = Suc (seen w)"
      by blast
    from modal_walk_spec [of e bx 30 cx cy w3] obtain moves where
      raw: "pointer (snd (modal_walk e bx 30 cx cy w3)) = pointer w3 @ moves"
        "length moves \<le> 30"
        "seen (snd (modal_walk e bx 30 cx cy w3)) \<le> seen w3 + 30"
        "fst (modal_walk e bx 30 cx cy w3) = Inr True \<longleftrightarrow> (\<exists>i<30. first_gone e (seen w3) i)"
        "\<forall>i<30. first_gone e (seen w3) i \<longrightarrow> length moves = Suc i"
      by blast
    have m: "pointer (snd (dismiss_try e w)) = pointer w @ moves"
        "length moves \<le> 30"
        "seen (snd (dismiss_try e w)) \<le> seen w + 31"
        "?b \<longleftrightarrow> (\<exists>i<30. first_gone e (Suc (seen w)) i)"
        "\<forall>i<30. first_gone e (Suc (seen w)) i \<longrightarrow> length moves = Suc i"
      using raw by (simp_all add: d w3)
    have "?b \<longleftrightarrow> walk_starts (page_at e (seen w)) \<and> (\<exists>i<30. first_gone e (Suc (seen w)) i)"
      using True m(4) by simp
    moreover have "(\<forall>i<30. modal_gone (page_at e (Suc (seen w) + i)) = Inr False) \<longrightarrow> \<not> ?b"
      using nogone m(4) by blast
    moreover have "(\<forall>bx. iframe_box (page_at e (seen w)) \<noteq> Inr (Some bx)) \<longrightarrow> \<not> ?b"
      using nobox True by blast
    ultimately show ?thesis
      using fst m(1,2,3,5) unfolding snd
      by (intro exI [of _ ?b] exI [of _ moves]) blast
  qed
qed

theorem dismiss_interaction_modal_steps_witness:
  "fst (dismiss_interaction_modal lifting_overlay fresh) = Inr True \<and>
   length (pointer (snd (dismiss_interaction_modal lifting_overlay fresh))) = 3"
proof -
  have start: "walk_starts (page_at lifting_overlay (seen fresh))"
    by code_simp
  have gone: "first_gone lifting_overlay (Suc (seen fresh)) 2"
    unfolding first_gone_def
  proof (intro conjI allI impI)
    show "modal_gone (page_at lifting_overlay (Suc (seen fresh) + 2)) = Inr True"
      by code_simp
  next
    fix j :: nat
    assume "j < 2"
    then have "j = 0 \<or> j = 1" by auto
    then show "modal_gone (page_at lifting_overlay (Suc (seen fresh) + j)) = Inr False"
      by (elim disjE; hypsubst) code_simp+
  next
    fix j :: nat
    show "mouse_move (page_at lifting_overlay (Suc (seen fresh) + j)) = Inr ()"
      by (simp add: lifting_overlay_def overlay_page_def page_showing_def)
  qed
  have empty: "pointer fresh = []"
    by (simp add: fresh_def)
  from dismiss_interaction_modal_steps [of lifting_overlay fresh] obtain b moves where
    r: "fst (dismiss_interaction_modal lifting_overlay fresh) = Inr b"
      "pointer (snd (dismiss_interaction_modal lifting_overlay fresh)) = pointer fresh @ moves"
      "b \<longleftrightarrow> walk_starts (page_at lifting_overlay (seen fresh)) \<and>
         (\<exists>i<30. first_gone lifting_overlay (Suc (seen fresh)) i)"
      "\<forall>i<30. walk_starts (page_at lifting_overlay (seen fresh)) \<and>
         first_gone lifting_overlay (Suc (seen fresh)) i \<longrightarrow> length moves = Suc i"
    by blast
  from r(3) start gone have "b" by auto
  moreover from r(4) [rule_format, of 2] start gone have "length moves = 3" by simp
  ultimately show ?thesis
    using r(1,2) empty by simp
qed

section \<open>Properties of click\_in\_iframe\<close>

lemma py_int_of_int [simp]: "py_int (of_int n) = n"
  by (simp add: py_int_def)

lemma py_int_numeral [simp]: "py_int (numeral k) = numeral k"
  using py_int_of_int [of "numeral k"] by simp

lemma py_int_half: "py_int (101 / 2) = 50" "py_int (1601 / 2) = 800"
  by (simp_all add: py_int_def floor_eq_iff)

text \<open>
  C4. The claim fails on the code. With the iframe at \<open>x = 1/2\<close> the safe region
  starts at \<open>x = 50.5\<close>, but the start point and every clamp use \<open>int(safe_left) = 50\<close>:
  with the smallest draws the pointer moves to, and clicks at, \<open>x = 50\<close>, left of the
  safe region.
\<close>

theorem click_in_iframe_leaves_safe_region:
  "pointer (snd (click_in_iframe (steady (page_showing ''WS: CONNECTED'' half_pixel_box)) fresh)) =
     [Move 50 80, Move 50 80, Move 50 80, Click 50 80] \<and>
   fst (click_in_iframe (steady (page_showing ''WS: CONNECTED'' half_pixel_box)) fresh) = Inr True \<and>
   safe_left half_pixel_box = 101 / 2 \<and>
   \<not> in_safe_region half_pixel_box (Move 50 80) \<and>
   \<not> in_safe_region half_pixel_box (Click 50 80)"
  by (simp add: click_in_iframe_def click_in_iframe_try_def catching_def look_def steady_def
      page_showing_def half_pixel_box_def fresh_def safe_left_def safe_right_def safe_top_def
      safe_bottom_def randint_def py_int_half sleep_def numeral_3_eq_3 Let_def)

section \<open>Properties of reconnect\_ws\<close>

lemma get_ws_status_ret:
  "\<exists>st. get_ws_status e w =
          (Inr st, w\<lparr>now := now w + int (took (page_at e (seen w))), seen := Suc (seen w)\<rparr>) \<and>
        ws_status_of (page_at e (seen w)) = Inr st"
  using ws_status_of_returns [of "page_at e (seen w)"]
  by (auto simp: get_ws_status_def look_def Let_def)

lemma sample_ret:
  "\<exists>st w'. sample e w = (Inr st, w') \<and> ops w' = ops w @ [Sampled st] \<and>
     ws_status_of (page_at e (seen w)) = Inr st"
  using get_ws_status_ret [of e w]
  by (auto simp: sample_def and_then_def logged_def)

lemma click_button_try_ops: "ops (snd (click_button_try s b w)) = ops w"
  by (simp add: click_button_try_def sleep_def split: option.splits sum.splits)

lemma click_disconnect_ret: "\<exists>b w'. click_disconnect e w = (Inr b, w') \<and> ops w' = ops w"
proof -
  define s where "s = page_at e (seen w)"
  define w1 where "w1 = w\<lparr>now := now w + int (took s), seen := Suc (seen w)\<rparr>"
  have "click_disconnect e w = catching (click_button_try s (disconnect_btn s) w1) False"
    by (simp add: click_disconnect_def look_def Let_def s_def w1_def)
  moreover have "ops (snd (click_button_try s (disconnect_btn s) w1)) = ops w"
    by (simp add: click_button_try_ops w1_def)
  ultimately show ?thesis
    by (cases "click_button_try s (disconnect_btn s) w1")
      (auto simp: catching_def split: sum.splits)
qed

lemma click_connect_ret: "\<exists>b w'. click_connect e w = (Inr b, w') \<and> ops w' = ops w"
proof -
  define s where "s = page_at e (seen w)"
  define w1 where "w1 = w\<lparr>now := now w + int (took s), seen := Suc (seen w)\<rparr>"
  have "click_connect e w = catching (click_button_try s (connect_btn s) w1) False"
    by (simp add: click_connect_def look_def Let_def s_def w1_def)
  moreover have "ops (snd (click_button_try s (connect_btn s) w1)) = ops w"
    by (simp add: click_button_try_ops w1_def)
  ultimately show ?thesis
    by (cases "click_button_try s (connect_btn s) w1")
      (auto simp: catching_def split: sum.splits)
qed

lemma dismiss_try_ops: "ops (snd (dismiss_try e w)) = ops w"
proof (cases "walk_starts (page_at e (seen w))")
  case False
  then show ?thesis
    using dismiss_try_no_walk by blast
next
  case True
  from dismiss_try_walk [OF True] obtain bx cx cy w3 where
    d: "dismiss_try e w = modal_walk e bx 30 cx cy w3" and w3: "ops w3 = ops w"
    by blast
  from modal_walk_spec [of e bx 30 cx cy w3] have "ops (snd (modal_walk e bx 30 cx cy w3)) = ops w3"
    by blast
  then show ?thesis
    by (simp add: d w3)
qed

lemma dismiss_interaction_modal_ret:
  "\<exists>b w'. dismiss_interaction_modal e w = (Inr b, w') \<and> ops w' = ops w"
  using dismiss_try_ops [of e w]
  by (cases "dismiss_try e w")
    (auto simp: dismiss_interaction_modal_def catching_def split: sum.splits)

lemma wait_loop_spec:
  "\<exists>ok sts w'. wait_loop e start_time timeout w = (Inr ok, w') \<and>
     ops w' = ops w @ polling sts ok \<and>
     ''CONNECTED'' \<notin> set sts \<and>
     1000 * (int (length sts) + (if ok then 1 else 0)) \<le> max 0 (start_time + 1000 * timeout - now w + 999)"
proof (induction e start_time timeout w rule: wait_loop.induct)
  case (1 e start_time timeout w)
  show ?case
  proof (cases "now w - start_time < 1000 * timeout")
    case False
    then have "wait_loop e start_time timeout w = (Inr False, w)"
      by (simp add: wait_loop.simps)
    then show ?thesis
      by (intro exI [of _ False] exI [of _ "[]"] exI [of _ w]) (simp add: polling_def)
  next
    case True
    obtain st where g: "get_ws_status e w =
        (Inr st, w\<lparr>now := now w + int (took (page_at e (seen w))), seen := Suc (seen w)\<rparr>)"
      using get_ws_status_ret by blast
    define w1 where "w1 = w\<lparr>now := now w + int (took (page_at e (seen w))), seen := Suc (seen w)\<rparr>"
    have w1: "ops w1 = ops w" "now w \<le> now w1"
      by (simp_all add: w1_def)
    show ?thesis
    proof (cases "st = ''CONNECTED''")
      case c: True
      have "wait_loop e start_time timeout w = (Inr True, logged (Sampled st) w1)"
        using True c g by (subst wait_loop.simps) (simp add: w1_def)
      then show ?thesis
        using True c w1
        by (intro exI [of _ True] exI [of _ "[]"] exI [of _ "logged (Sampled st) w1"])
          (simp add: polling_def logged_def)
    next
      case c: False
      define w2 where "w2 = logged (Slept 1000) (sleep 1000 (logged (Sampled st) w1))"
      have w2: "ops w2 = ops w @ [Sampled st, Slept 1000]" "now w2 = now w1 + 1000"
        by (simp_all add: w2_def logged_def sleep_def w1)
      have r: "wait_loop e start_time timeout w = wait_loop e start_time timeout w2"
        using True c g by (subst wait_loop.simps) (simp add: w1_def w2_def)
      from "1.IH" [OF True g [symmetric] refl c, folded w1_def]
      obtain ok sts w' where ih: "wait_loop e start_time timeout w2 = (Inr ok, w')"
        "ops w' = ops w2 @ polling sts ok" "''CONNECTED'' \<notin> set sts"
        "1000 * (int (length sts) + (if ok then 1 else 0))
           \<le> max 0 (start_time + 1000 * timeout - now w2 + 999)"
        unfolding w2_def by blast
      have "1000 * (int (length (st # sts)) + (if ok then 1 else 0))
           \<le> max 0 (start_time + 1000 * timeout - now w + 999)"
        using ih(4) w2(2) w1(2) True by (simp split: if_splits)
      moreover have "ops w' = ops w @ polling (st # sts) ok"
        by (simp add: ih(2) w2(1) polling_def)
      ultimately show ?thesis
        using ih(1,3) c unfolding r
        by (intro exI [of _ ok] exI [of _ "st # sts"] exI [of _ w']) simp
    qed
  qed
qed


lemma wait_loop_connected:
  assumes "now w - start_time < 1000 * timeout"
    and "ws_status_of (page_at e (seen w)) = Inr ''CONNECTED''"
  shows "\<exists>w'. wait_loop e start_time timeout w = (Inr True, w') \<and>
           ops w' = ops w @ [Sampled ''CONNECTED'']"
  using assms
  by (subst wait_loop.simps) (simp add: get_ws_status_def look_def Let_def logged_def)

lemma reconnect_ws_trace:
  "\<exists>d c1 s1 c2 ok sts st w'.
     reconnect_ws e w = (Inr st, w') \<and>
     ops w' = ops w @ [Dismissed d, Toggled ''Disconnect'' c1, Slept 2000, Sampled s1,
                       Toggled ''Connect'' c2, Slept 2000] @ polling sts ok @ [Sampled st] \<and>
     ''CONNECTED'' \<notin> set sts \<and>
     length sts + (if ok then 1 else 0) \<le> 15 \<and>
     ((\<forall>k. ws_status_of (page_at e k) = Inr ''CONNECTED'') \<longrightarrow>
        s1 = ''CONNECTED'' \<and> sts = [] \<and> ok \<and> st = ''CONNECTED'')"
proof -
  obtain d wa where a: "dismiss_interaction_modal e w = (Inr d, wa)" "ops wa = ops w"
    using dismiss_interaction_modal_ret by blast
  define wa' where "wa' = logged (Dismissed d) wa"
  obtain c1 wb where b: "click_disconnect e wa' = (Inr c1, wb)" "ops wb = ops wa'"
    using click_disconnect_ret by blast
  define wb' where "wb' = logged (Slept 2000) (sleep 2000 (logged (Toggled ''Disconnect'' c1) wb))"
  obtain s1 wc where c: "sample e wb' = (Inr s1, wc)" "ops wc = ops wb' @ [Sampled s1]"
    "ws_status_of (page_at e (seen wb')) = Inr s1"
    using sample_ret by blast
  obtain c2 wd where dd: "click_connect e wc = (Inr c2, wd)" "ops wd = ops wc"
    using click_connect_ret by blast
  define wd' where "wd' = logged (Slept 2000) (sleep 2000 (logged (Toggled ''Connect'' c2) wd))"
  obtain ok sts we where f: "wait_loop e (now wd') 15 wd' = (Inr ok, we)"
    "ops we = ops wd' @ polling sts ok" "''CONNECTED'' \<notin> set sts"
    "1000 * (int (length sts) + (if ok then 1 else 0)) \<le> max 0 (now wd' + 1000 * 15 - now wd' + 999)"
    using wait_loop_spec [of e "now wd'" 15 wd'] by blast
  obtain st wf where g: "sample e we = (Inr st, wf)" "ops wf = ops we @ [Sampled st]"
    "ws_status_of (page_at e (seen we)) = Inr st"
    using sample_ret by blast
  have run: "reconnect_ws e w = (Inr st, wf)"
    by (simp add: reconnect_ws_def and_then_def a b c dd f g wait_for_ws_connected_def
        wa'_def [symmetric] wb'_def [symmetric] wd'_def [symmetric])
  have trace: "ops wf = ops w @ [Dismissed d, Toggled ''Disconnect'' c1, Slept 2000, Sampled s1,
      Toggled ''Connect'' c2, Slept 2000] @ polling sts ok @ [Sampled st]"
    by (simp add: g(2) f(2) wd'_def dd(2) c(2) wb'_def b(2) wa'_def a(2) logged_def sleep_def)
  have count: "length sts + (if ok then 1 else 0) \<le> 15"
    using f(4) by (simp split: if_splits)
  have conn: "s1 = ''CONNECTED'' \<and> sts = [] \<and> ok \<and> st = ''CONNECTED''"
    if all: "\<forall>k. ws_status_of (page_at e k) = Inr ''CONNECTED''"
  proof -
    have s1: "s1 = ''CONNECTED''" and st: "st = ''CONNECTED''"
      using all c(3) g(3) by simp_all
    from wait_loop_connected [of wd' "now wd'" 15 e] all
    obtain w' where "wait_loop e (now wd') 15 wd' = (Inr True, w')"
      "ops w' = ops wd' @ [Sampled ''CONNECTED'']"
      by auto
    with f(1,2) have "ok" "polling sts ok = [Sampled ''CONNECTED'']"
      by simp_all
    then have "sts = []"
      by (cases sts) (simp_all add: polling_def)
    with s1 st \<open>ok\<close> show ?thesis
      by simp
  qed
  from run trace f(3) count conn show ?thesis
    by blast
qed





text \<open>
  C2. \<open>reconnect_ws\<close> never short-circuits: for every page it dismisses the overlay,
  clicks Disconnect, sleeps two seconds, samples the status, clicks Connect, sleeps two
  seconds, polls, and samples the status it returns. When the page reports
  \<open>CONNECTED\<close> at every look, the polling loop ends at its first sample and the
  result is \<open>CONNECTED\<close>.
\<close>

theorem reconnect_ws_full_sequence:
  "\<exists>d c1 s1 c2 polls st.
     fst (reconnect_ws e w) = Inr st \<and>
     ops (snd (reconnect_ws e w)) =
       ops w @ [Dismissed d, Toggled ''Disconnect'' c1, Slept 2000, Sampled s1,
                Toggled ''Connect'' c2, Slept 2000] @ polls @ [Sampled st] \<and>
     ((\<forall>k. ws_status_of (page_at e k) = Inr ''CONNECTED'') \<longrightarrow>
        s1 = ''CONNECTED'' \<and> polls = [Sampled ''CONNECTED''] \<and> st = ''CONNECTED'')"
proof -
  from reconnect_ws_trace [of e w] obtain d c1 s1 c2 ok sts st w' where
    r: "reconnect_ws e w = (Inr st, w')"
      "ops w' = ops w @ [Dismissed d, Toggled ''Disconnect'' c1, Slept 2000, Sampled s1,
         Toggled ''Connect'' c2, Slept 2000] @ polling sts ok @ [Sampled st]"
      "(\<forall>k. ws_status_of (page_at e k) = Inr ''CONNECTED'') \<longrightarrow>
         s1 = ''CONNECTED'' \<and> sts = [] \<and> ok \<and> st = ''CONNECTED''"
    by blast
  have "(\<forall>k. ws_status_of (page_at e k) = Inr ''CONNECTED'') \<longrightarrow>
      s1 = ''CONNECTED'' \<and> polling sts ok = [Sampled ''CONNECTED''] \<and> st = ''CONNECTED''"
    using r(3) by (auto simp: polling_def)
  with r(1,2) show ?thesis
    by (intro exI [of _ d] exI [of _ c1] exI [of _ s1] exI [of _ c2]
        exI [of _ "polling sts ok"] exI [of _ st]) simp
qed

lemma connected_page: "ws_status_of (page_showing ''WS: CONNECTED'' wide_box) = Inr ''CONNECTED''"
  by code_simp

theorem reconnect_ws_full_sequence_witness:
  "fst (reconnect_ws (steady (page_showing ''WS: CONNECTED'' wide_box)) fresh) = Inr ''CONNECTED'' \<and>
   (\<exists>d c1 c2. ops (snd (reconnect_ws (steady (page_showing ''WS: CONNECTED'' wide_box)) fresh)) =
      [Dismissed d, Toggled ''Disconnect'' c1, Slept 2000, Sampled ''CONNECTED'',
       Toggled ''Connect'' c2, Slept 2000, Sampled ''CONNECTED'', Sampled ''CONNECTED''])"
proof -
  let ?e = "steady (page_showing ''WS: CONNECTED'' wide_box)"
  have always: "\<forall>k. ws_status_of (page_at ?e k) = Inr ''CONNECTED''"
    by (simp add: steady_def connected_page)
  have empty: "ops fresh = []"
    by (simp add: fresh_def)
  from reconnect_ws_full_sequence [of ?e fresh] always obtain d c1 c2 where
    "fst (reconnect_ws ?e fresh) = Inr ''CONNECTED''"
    "ops (snd (reconnect_ws ?e fresh)) =
       ops fresh @ [Dismissed d, Toggled ''Disconnect'' c1, Slept 2000, Sampled ''CONNECTED'',
         Toggled ''Connect'' c2, Slept 2000] @ [Sampled ''CONNECTED''] @ [Sampled ''CONNECTED'']"
    by auto
  then show ?thesis
    by (simp add: empty)
qed

end
